theory Spec2Isabelle
  imports Complex_Main
begin

section \<open>The schedule engine of the debt calculator\<close>

text \<open>
  The development embeds \<^verbatim>\<open>computeSchedule\<close> of
  \<^verbatim>\<open>src/calculator/calculator.tsx\<close>. The numbers of the source are IEEE binary64
  numbers; the specification reads them as reals (\<^verbatim>\<open>principal: real\<close>,
  \<^verbatim>\<open>annualRate: real\<close>, \<^verbatim>\<open>payments: sequence<real>\<close>). The function is embedded twice:
  \<^item> \<open>computeSchedule\<close> computes in the reals, with no rounding;
  \<^item> \<open>computeSchedule64\<close> rounds the result of every division, multiplication, addition
    and subtraction to binary64 (\<open>round64\<close>: to nearest, ties to even, subnormal numbers
    included), as the source does on finite numbers. Infinity and NaN are not reals: a
    result beyond the largest finite binary64 number is outside this model.
  The month number and the loop index count array positions and are naturals.
\<close>

subsection \<open>Data\<close>

text \<open>The type \<^verbatim>\<open>Row\<close> of the source, field by field.\<close>

record Row =
  month :: nat
  startDebt :: real
  interest :: real
  paymentPlanned :: real
  paymentApplied :: real
  endDebt :: real

text \<open>
  The three accumulators \<^verbatim>\<open>schedule\<close>, \<^verbatim>\<open>totalInterest\<close> and \<^verbatim>\<open>payoffMonth\<close> are
  local variables of the function and also fields of the object it returns, under the same
  names. They are declared once; the returned object adds \<^verbatim>\<open>remainingDebt\<close>, the
  variables of the running function add the parameter \<^verbatim>\<open>payments\<close> and the variable
  \<^verbatim>\<open>debt\<close>.
\<close>

record accumulators =
  schedule :: "Row list"
  totalInterest :: real
  payoffMonth :: "nat option"

record ScheduleResult = accumulators +
  remainingDebt :: real

record variables = accumulators +
  payments :: "real list"
  debt :: real

subsection \<open>The function\<close>

text \<open>
  One pass through the body of the \<^verbatim>\<open>for\<close> loop after its \<^verbatim>\<open>break\<close> test, at index
  \<^verbatim>\<open>i\<close> (lines 32 to 43 of the source). The array \<^verbatim>\<open>payments\<close> is only read.
\<close>

definition body :: "real \<Rightarrow> nat \<Rightarrow> variables \<Rightarrow> variables" where
  "body monthlyRate i s =
     (let month' = i + 1;
          startDebt' = debt s;
          interest' = startDebt' * monthlyRate;
          totalInterest' = totalInterest s + interest';
          paymentPlanned' = (if payments s ! i > 0 then payments s ! i else 0);
          paymentApplied' = min paymentPlanned' startDebt';
          endDebt' = max (startDebt' - paymentApplied') 0;
          schedule' = schedule s @
            [\<lparr>month = month', startDebt = startDebt', interest = interest',
              paymentPlanned = paymentPlanned', paymentApplied = paymentApplied',
              endDebt = endDebt'\<rparr>];
          debt' = endDebt';
          payoffMonth' =
            (if debt' = 0 \<and> payoffMonth s = None then Some month' else payoffMonth s)
      in s\<lparr>schedule := schedule', totalInterest := totalInterest',
            payoffMonth := payoffMonth', debt := debt'\<rparr>)"

text \<open>
  The loop \<^verbatim>\<open>for (let i = 0; i < payments.length; i++) { if (debt <= 0) break; ... }\<close>
  from index \<^verbatim>\<open>i\<close> on. The index is below the length whenever the body reads
  \<^verbatim>\<open>payments[i]\<close>.
\<close>

function loop :: "real \<Rightarrow> nat \<Rightarrow> variables \<Rightarrow> variables" where
  "loop monthlyRate i s =
     (if i < length (payments s) then
        (if debt s \<le> 0 then s
         else loop monthlyRate (i + 1) (body monthlyRate i s))
      else s)"
  by pat_completeness auto
termination
  by (relation "measure (\<lambda>(monthlyRate, i, s). length (payments s) - i)")
     (auto simp: body_def Let_def)

declare loop.simps [simp del]

text \<open>The variables as lines 24 to 28 initialise them.\<close>

definition init :: "real \<Rightarrow> real list \<Rightarrow> variables" where
  "init total' ps =
     \<lparr>schedule = [], totalInterest = 0, payoffMonth = None, payments = ps, debt = total'\<rparr>"

text \<open>The variables when the loop has ended.\<close>

definition computeSchedule_run :: "real \<Rightarrow> real \<Rightarrow> real list \<Rightarrow> variables" where
  "computeSchedule_run total' annualRate ps =
     (let monthlyRate = annualRate / 12 in loop monthlyRate 0 (init total' ps))"

text \<open>The returned object (line 46).\<close>

definition result :: "variables \<Rightarrow> ScheduleResult" where
  "result s =
     \<lparr>schedule = schedule s, totalInterest = totalInterest s, payoffMonth = payoffMonth s,
      remainingDebt = debt s\<rparr>"

definition computeSchedule :: "real \<Rightarrow> real \<Rightarrow> real list \<Rightarrow> ScheduleResult" where
  "computeSchedule total' annualRate ps = result (computeSchedule_run total' annualRate ps)"

text \<open>
  The same loop and function with no termination argument built in: the value is
  \<open>None\<close> if the loop runs forever.
\<close>

partial_function (option) loop_opt :: "real \<Rightarrow> nat \<Rightarrow> variables \<Rightarrow> variables option" where
  "loop_opt monthlyRate i s =
     (if i < length (payments s) then
        (if debt s \<le> 0 then Some s
         else loop_opt monthlyRate (i + 1) (body monthlyRate i s))
      else Some s)"

declare loop_opt.simps [code]

definition computeSchedule_opt :: "real \<Rightarrow> real \<Rightarrow> real list \<Rightarrow> ScheduleResult option" where
  "computeSchedule_opt total' annualRate ps =
     (let monthlyRate = annualRate / 12 in
      map_option result (loop_opt monthlyRate 0 (init total' ps)))"

subsection \<open>The rows of a run, by recursion on the payments still to be read\<close>

text \<open>
  Two auxiliary functions for the proofs. \<open>mkrow\<close> is the row the body pushes at index
  \<open>i\<close> when the debt is \<open>d\<close> and \<^verbatim>\<open>payments[i]\<close> is \<open>p\<close>; \<open>rows_from\<close> lists the rows
  the loop pushes from index \<open>i\<close> and debt \<open>d\<close> on, given the payments from that index
  on. Lemma \<open>loop_schedule\<close> below shows that the loop appends exactly these rows.
\<close>

definition mkrow :: "real \<Rightarrow> nat \<Rightarrow> real \<Rightarrow> real \<Rightarrow> Row" where
  "mkrow monthlyRate i d p =
     \<lparr>month = i + 1, startDebt = d, interest = d * monthlyRate,
      paymentPlanned = (if p > 0 then p else 0),
      paymentApplied = min (if p > 0 then p else 0) d,
      endDebt = max (d - min (if p > 0 then p else 0) d) 0\<rparr>"

fun rows_from :: "real \<Rightarrow> nat \<Rightarrow> real \<Rightarrow> real list \<Rightarrow> Row list" where
  "rows_from monthlyRate i d [] = []"
| "rows_from monthlyRate i d (p # ps) =
     (if d \<le> 0 then []
      else mkrow monthlyRate i d p #
           rows_from monthlyRate (i + 1) (endDebt (mkrow monthlyRate i d p)) ps)"

subsection \<open>Binary64 numbers\<close>

text \<open>
  \<open>rne\<close> rounds a real to the nearest integer, a tie to the even one. \<open>expo x\<close> is the
  binary64 exponent of \<open>x\<close>: the \<open>e\<close> between \<open>-1022\<close> and \<open>1023\<close> with
  \<open>2 powi e \<le> \<bar>x\<bar> < 2 powi (e + 1)\<close>, and \<open>-1022\<close> below that range (the subnormal numbers),
  found by going up from \<open>-1022\<close>. \<open>round64 x\<close> is the multiple of \<open>2 powi (expo x - 52)\<close>
  nearest to \<open>x\<close> (53 significant bits): the result the machine gives for an operation
  whose exact result is \<open>x\<close>.
\<close>

definition rne :: "real \<Rightarrow> int" where
  "rne y =
     (let f = \<lfloor>y\<rfloor> in
      if y - of_int f < 1 / 2 then f
      else if 1 / 2 < y - of_int f then f + 1
      else if even f then f else f + 1)"

fun expo_from :: "nat \<Rightarrow> int \<Rightarrow> real \<Rightarrow> int" where
  "expo_from 0 e a = e"
| "expo_from (Suc n) e a = (if a < 2 powi (e + 1) then e else expo_from n (e + 1) a)"

definition expo :: "real \<Rightarrow> int" where
  "expo x = expo_from 2045 (- 1022) \<bar>x\<bar>"

definition round64 :: "real \<Rightarrow> real" where
  "round64 x = (let q = 2 powi (expo x - 52) in q * of_int (rne (x / q)))"

subsection \<open>The function in binary64\<close>

text \<open>
  The body, the loop and the function once more, each arithmetic operation of the source
  followed by \<open>round64\<close>: the division of line 24, the multiplication of line 34, the
  addition of line 35 and the subtraction of line 39. The comparison, \<^verbatim>\<open>Math.min\<close> and
  \<^verbatim>\<open>Math.max\<close> return one of their arguments and do not round.
\<close>

definition body64 :: "real \<Rightarrow> nat \<Rightarrow> variables \<Rightarrow> variables" where
  "body64 monthlyRate i s =
     (let month' = i + 1;
          startDebt' = debt s;
          interest' = round64 (startDebt' * monthlyRate);
          totalInterest' = round64 (totalInterest s + interest');
          paymentPlanned' = (if payments s ! i > 0 then payments s ! i else 0);
          paymentApplied' = min paymentPlanned' startDebt';
          endDebt' = max (round64 (startDebt' - paymentApplied')) 0;
          schedule' = schedule s @
            [\<lparr>month = month', startDebt = startDebt', interest = interest',
              paymentPlanned = paymentPlanned', paymentApplied = paymentApplied',
              endDebt = endDebt'\<rparr>];
          debt' = endDebt';
          payoffMonth' =
            (if debt' = 0 \<and> payoffMonth s = None then Some month' else payoffMonth s)
      in s\<lparr>schedule := schedule', totalInterest := totalInterest',
            payoffMonth := payoffMonth', debt := debt'\<rparr>)"

function loop64 :: "real \<Rightarrow> nat \<Rightarrow> variables \<Rightarrow> variables" where
  "loop64 monthlyRate i s =
     (if i < length (payments s) then
        (if debt s \<le> 0 then s
         else loop64 monthlyRate (i + 1) (body64 monthlyRate i s))
      else s)"
  by pat_completeness auto
termination
  by (relation "measure (\<lambda>(monthlyRate, i, s). length (payments s) - i)")
     (auto simp: body64_def Let_def)

declare loop64.simps [simp del]

definition computeSchedule64 :: "real \<Rightarrow> real \<Rightarrow> real list \<Rightarrow> ScheduleResult" where
  "computeSchedule64 total' annualRate ps =
     (let monthlyRate = round64 (annualRate / 12) in
      result (loop64 monthlyRate 0 (init total' ps)))"

text \<open>The rows of a run in binary64, as \<open>mkrow\<close> and \<open>rows_from\<close> above.\<close>

definition mkrow64 :: "real \<Rightarrow> nat \<Rightarrow> real \<Rightarrow> real \<Rightarrow> Row" where
  "mkrow64 monthlyRate i d p =
     \<lparr>month = i + 1, startDebt = d, interest = round64 (d * monthlyRate),
      paymentPlanned = (if p > 0 then p else 0),
      paymentApplied = min (if p > 0 then p else 0) d,
      endDebt = max (round64 (d - min (if p > 0 then p else 0) d)) 0\<rparr>"

fun rows_from64 :: "real \<Rightarrow> nat \<Rightarrow> real \<Rightarrow> real list \<Rightarrow> Row list" where
  "rows_from64 monthlyRate i d [] = []"
| "rows_from64 monthlyRate i d (p # ps) =
     (if d \<le> 0 then []
      else mkrow64 monthlyRate i d p #
           rows_from64 monthlyRate (i + 1) (endDebt (mkrow64 monthlyRate i d p)) ps)"

subsection \<open>The call as a relation\<close>

text \<open>
  The loop in binary64 once more, as the relation between the variables at index \<open>i\<close>
  and the variables when the loop has ended: one rule for the loop test failing, one for
  the \<^verbatim>\<open>break\<close>, one for a pass through the body. \<open>computeSchedule_exec\<close> relates the
  arguments of a call to its outcome: the returned object and the array \<^verbatim>\<open>payments\<close> as
  the call leaves it.
\<close>

inductive loop_exec :: "real \<Rightarrow> nat \<Rightarrow> variables \<Rightarrow> variables \<Rightarrow> bool"
  for monthlyRate :: real where
  exit: "\<not> i < length (payments s) \<Longrightarrow> loop_exec monthlyRate i s s"
| break: "i < length (payments s) \<Longrightarrow> debt s \<le> 0 \<Longrightarrow> loop_exec monthlyRate i s s"
| iterate: "i < length (payments s) \<Longrightarrow> \<not> debt s \<le> 0 \<Longrightarrow>
     loop_exec monthlyRate (i + 1) (body64 monthlyRate i s) t \<Longrightarrow>
     loop_exec monthlyRate i s t"

code_pred loop_exec .

inductive computeSchedule_exec ::
  "real \<Rightarrow> real \<Rightarrow> real list \<Rightarrow> ScheduleResult \<times> real list \<Rightarrow> bool" where
  call: "loop_exec (round64 (annualRate / 12)) 0 (init total' ps) t \<Longrightarrow>
     computeSchedule_exec total' annualRate ps (result t, payments t)"

code_pred computeSchedule_exec .

section \<open>What the loop computes\<close>

subsection \<open>One pass of the body and the two ways the loop goes on\<close>

lemma body_fields:
  "payments (body mr i s) = payments s"
  "debt (body mr i s) = endDebt (mkrow mr i (debt s) (payments s ! i))"
  "schedule (body mr i s) = schedule s @ [mkrow mr i (debt s) (payments s ! i)]"
  "totalInterest (body mr i s) = totalInterest s + interest (mkrow mr i (debt s) (payments s ! i))"
  "payoffMonth (body mr i s) =
     (if endDebt (mkrow mr i (debt s) (payments s ! i)) = 0 \<and> payoffMonth s = None
      then Some (i + 1) else payoffMonth s)"
  by (simp_all add: body_def mkrow_def Let_def)

lemma loop_stop: "\<not> (i < length (payments s) \<and> \<not> debt s \<le> 0) \<Longrightarrow> loop mr i s = s"
  by (subst loop.simps) auto

lemma loop_step:
  "i < length (payments s) \<Longrightarrow> \<not> debt s \<le> 0 \<Longrightarrow> loop mr i s = loop mr (i + 1) (body mr i s)"
  by (subst loop.simps) simp

lemma rows_from_stop:
  "\<not> (i < length ps \<and> \<not> d \<le> 0) \<Longrightarrow> rows_from mr i d (drop i ps) = []"
  by (cases "drop i ps") auto

lemma rows_from_step:
  "i < length ps \<Longrightarrow> \<not> d \<le> 0 \<Longrightarrow>
   rows_from mr i d (drop i ps) =
     mkrow mr i d (ps ! i) # rows_from mr (i + 1) (endDebt (mkrow mr i d (ps ! i))) (drop (i + 1) ps)"
  by (simp flip: Cons_nth_drop_Suc)

lemma loop_schedule:
  "schedule (loop mr i s) = schedule s @ rows_from mr i (debt s) (drop i (payments s))"
proof (induction mr i s rule: loop.induct)
  case (1 mr i s)
  show ?case
  proof (cases "i < length (payments s) \<and> \<not> debt s \<le> 0")
    case True
    with "1.IH" show ?thesis
      by (simp add: loop_step rows_from_step body_fields)
  next
    case False
    then show ?thesis
      by (simp add: loop_stop rows_from_stop)
  qed
qed

lemma loop_debt:
  "debt (loop mr i s) =
     (let rows = rows_from mr i (debt s) (drop i (payments s))
      in if rows = [] then debt s else endDebt (last rows))"
proof (induction mr i s rule: loop.induct)
  case (1 mr i s)
  show ?case
  proof (cases "i < length (payments s) \<and> \<not> debt s \<le> 0")
    case True
    with "1.IH" show ?thesis
      by (simp add: loop_step rows_from_step body_fields Let_def)
  next
    case False
    then show ?thesis
      by (simp add: loop_stop rows_from_stop)
  qed
qed

lemma loop_payoffMonth:
  "payoffMonth (loop mr i s) =
     (let rows = rows_from mr i (debt s) (drop i (payments s))
      in if payoffMonth s = None \<and> rows \<noteq> [] \<and> endDebt (last rows) = 0
         then Some (month (last rows)) else payoffMonth s)"
proof (induction mr i s rule: loop.induct)
  case (1 mr i s)
  show ?case
  proof (cases "i < length (payments s) \<and> \<not> debt s \<le> 0")
    case True
    let ?r = "mkrow mr i (debt s) (payments s ! i)"
    show ?thesis
    proof (cases "endDebt ?r = 0")
      case True
      then have "rows_from mr (i + 1) (endDebt ?r) (drop (i + 1) (payments s)) = []"
        by (simp add: rows_from_stop)
      with True \<open>i < length (payments s) \<and> \<not> debt s \<le> 0\<close> "1.IH" show ?thesis
        by (simp add: loop_step rows_from_step body_fields Let_def mkrow_def)
    next
      case False
      with \<open>i < length (payments s) \<and> \<not> debt s \<le> 0\<close> "1.IH" show ?thesis
        by (simp add: loop_step rows_from_step body_fields Let_def)
    qed
  next
    case False
    then show ?thesis
      by (simp add: loop_stop rows_from_stop)
  qed
qed

lemma loop_opt_loop: "loop_opt mr i s = Some (loop mr i s)"
proof (induction mr i s rule: loop.induct)
  case (1 mr i s)
  show ?case
    using "1.IH" by (subst loop_opt.simps, subst loop.simps) simp
qed

subsection \<open>Properties of the rows\<close>

lemma mkrow_fields [simp]:
  "month (mkrow mr i d p) = i + 1"
  "startDebt (mkrow mr i d p) = d"
  "interest (mkrow mr i d p) = d * mr"
  "paymentPlanned (mkrow mr i d p) = (if p > 0 then p else 0)"
  "paymentApplied (mkrow mr i d p) = min (if p > 0 then p else 0) d"
  "endDebt (mkrow mr i d p) = max (d - min (if p > 0 then p else 0) d) 0"
  by (simp_all add: mkrow_def)

lemma rows_from_nth:
  "k < length (rows_from mr i d ps) \<Longrightarrow>
   rows_from mr i d ps ! k = mkrow mr (i + k) (startDebt (rows_from mr i d ps ! k)) (ps ! k)
   \<and> 0 < startDebt (rows_from mr i d ps ! k)"
proof (induction ps arbitrary: i d k)
  case Nil
  then show ?case by simp
next
  case (Cons p ps)
  show ?case
  proof (cases k)
    case 0
    with Cons.prems show ?thesis by (auto split: if_splits)
  next
    case (Suc j)
    with Cons.prems have pos: "\<not> d \<le> 0" and j: "j < length (rows_from mr (i + 1) (endDebt (mkrow mr i d p)) ps)"
      by (auto split: if_splits)
    from Cons.IH [OF j] pos Suc show ?thesis by simp
  qed
qed

lemma rows_from_last:
  "k < length (rows_from mr i d ps) \<Longrightarrow> endDebt (rows_from mr i d ps ! k) \<le> 0 \<Longrightarrow>
   Suc k = length (rows_from mr i d ps)"
proof (induction ps arbitrary: i d k)
  case Nil
  then show ?case by simp
next
  case (Cons p ps)
  let ?d' = "endDebt (mkrow mr i d p)"
  from Cons.prems have pos: "\<not> d \<le> 0" by (auto split: if_splits)
  show ?case
  proof (cases k)
    case 0
    with Cons.prems pos have "?d' \<le> 0" by simp
    then have "rows_from mr (i + 1) ?d' ps = []" by (cases ps) auto
    with pos 0 show ?thesis by simp
  next
    case (Suc j)
    with Cons.prems pos have "j < length (rows_from mr (i + 1) ?d' ps)"
      and "endDebt (rows_from mr (i + 1) ?d' ps ! j) \<le> 0" by simp_all
    from Cons.IH [OF this] pos Suc show ?thesis by simp
  qed
qed

lemma rows_from_rate:
  "map (\<lambda>r. r\<lparr>interest := 0\<rparr>) (rows_from r1 i d ps) =
   map (\<lambda>r. r\<lparr>interest := 0\<rparr>) (rows_from r2 i d ps)"
  by (induction ps arbitrary: i d) (auto simp: mkrow_def)

lemma rows_from_zero:
  "0 < d \<Longrightarrow> rows_from mr i d (replicate n 0) = map (\<lambda>k. mkrow mr k d 0) [i..<i + n]"
proof (induction n arbitrary: i)
  case 0
  then show ?case by simp
next
  case (Suc n)
  have "[i..<i + Suc n] = i # [i + 1..<(i + 1) + n]"
    by (simp add: upt_rec)
  with Suc.IH [OF Suc.prems, of "i + 1"] Suc.prems show ?case
    by simp
qed

subsection \<open>The fields of the returned object\<close>

lemma rows_from_row:
  assumes "r \<in> set (rows_from mr i d ps)"
  shows "0 < startDebt r" and "interest r = startDebt r * mr" and "0 \<le> paymentPlanned r"
    and "paymentApplied r = min (paymentPlanned r) (startDebt r)"
    and "endDebt r = max (startDebt r - paymentApplied r) 0"
    and "1 \<le> month r"
proof -
  from assms obtain k where k: "k < length (rows_from mr i d ps)" and r: "r = rows_from mr i d ps ! k"
    by (auto simp: in_set_conv_nth)
  from rows_from_nth [OF k] r
  have eq: "r = mkrow mr (i + k) (startDebt r) (ps ! k)" and pos: "0 < startDebt r"
    by simp_all
  show "0 < startDebt r" by (rule pos)
  show "interest r = startDebt r * mr" by (subst eq) simp
  show "0 \<le> paymentPlanned r" by (subst eq) simp
  show "paymentApplied r = min (paymentPlanned r) (startDebt r)"
    by (subst eq, subst (2) eq) simp
  show "endDebt r = max (startDebt r - paymentApplied r) 0"
    by (subst eq, subst (2) eq) simp
  show "1 \<le> month r" by (subst eq) simp
qed

lemma computeSchedule_schedule:
  "schedule (computeSchedule total' annualRate ps) = rows_from (annualRate / 12) 0 total' ps"
  by (simp add: computeSchedule_def computeSchedule_run_def result_def init_def loop_schedule)

lemma computeSchedule_remainingDebt:
  "remainingDebt (computeSchedule total' annualRate ps) =
     (let rows = rows_from (annualRate / 12) 0 total' ps
      in if rows = [] then total' else endDebt (last rows))"
  by (simp add: computeSchedule_def computeSchedule_run_def result_def init_def loop_debt
      Let_def)

lemma computeSchedule_payoffMonth:
  "payoffMonth (computeSchedule total' annualRate ps) =
     (let rows = rows_from (annualRate / 12) 0 total' ps
      in if rows \<noteq> [] \<and> endDebt (last rows) = 0 then Some (month (last rows)) else None)"
  by (simp add: computeSchedule_def computeSchedule_run_def result_def init_def
      loop_payoffMonth Let_def)

subsection \<open>Payments that are all zero, and two rates compared\<close>

lemma rows_from_zero_last:
  "0 < d \<Longrightarrow> 0 < n \<Longrightarrow> endDebt (last (rows_from mr i d (replicate n 0))) = d"
  by (simp add: rows_from_zero last_map)

lemma rows_from_rate_last:
  assumes "rows_from r1 i d ps \<noteq> []"
  shows "endDebt (last (rows_from r1 i d ps)) = endDebt (last (rows_from r2 i d ps))"
    and "month (last (rows_from r1 i d ps)) = month (last (rows_from r2 i d ps))"
proof -
  let ?f = "\<lambda>r::Row. r\<lparr>interest := 0\<rparr>"
  have eq: "map ?f (rows_from r1 i d ps) = map ?f (rows_from r2 i d ps)"
    by (rule rows_from_rate)
  from assms eq have ne: "rows_from r2 i d ps \<noteq> []" by auto
  from eq have "last (map ?f (rows_from r1 i d ps)) = last (map ?f (rows_from r2 i d ps))"
    by simp
  with assms ne have l: "?f (last (rows_from r1 i d ps)) = ?f (last (rows_from r2 i d ps))"
    by (simp add: last_map)
  from arg_cong [OF l, of endDebt]
  show "endDebt (last (rows_from r1 i d ps)) = endDebt (last (rows_from r2 i d ps))" by simp
  from arg_cong [OF l, of month]
  show "month (last (rows_from r1 i d ps)) = month (last (rows_from r2 i d ps))" by simp
qed

lemma rows_from_rate_Nil: "rows_from r1 i d ps = [] \<longleftrightarrow> rows_from r2 i d ps = []"
  by (cases ps) auto

section \<open>Rounding to binary64\<close>

lemma rne_of_int [simp]: "rne (of_int k) = k"
  by (simp add: rne_def)

lemma rne_numeral [simp]: "rne (numeral n) = numeral n" "rne 0 = 0" "rne 1 = 1"
  using rne_of_int [of "numeral n"] rne_of_int [of 0] rne_of_int [of 1] by simp_all

lemma rne_mono: "x \<le> y \<Longrightarrow> rne x \<le> rne y"
proof -
  assume le: "x \<le> y"
  then have f: "\<lfloor>x\<rfloor> \<le> \<lfloor>y\<rfloor>" by (rule floor_mono)
  have ux: "rne x \<le> \<lfloor>x\<rfloor> + 1" and ly: "\<lfloor>y\<rfloor> \<le> rne y"
    by (simp_all add: rne_def Let_def)
  show ?thesis
  proof (cases "\<lfloor>x\<rfloor> = \<lfloor>y\<rfloor>")
    case True
    with le show ?thesis by (auto simp: rne_def Let_def)
  next
    case False
    with f have "\<lfloor>x\<rfloor> + 1 \<le> \<lfloor>y\<rfloor>" by simp
    with ux ly show ?thesis by linarith
  qed
qed

lemma expo_from_range: "e \<le> expo_from n e a \<and> expo_from n e a \<le> e + int n"
proof (induction n arbitrary: e)
  case 0
  show ?case by simp
next
  case (Suc n)
  from Suc [of "e + 1"] show ?case by simp
qed

lemma expo_from_upper: "expo_from n e a < e + int n \<Longrightarrow> a < 2 powi (expo_from n e a + 1)"
proof (induction n arbitrary: e)
  case 0
  then show ?case by simp
next
  case (Suc n)
  show ?case
  proof (cases "a < 2 powi (e + 1)")
    case True
    then show ?thesis by simp
  next
    case False
    with Suc.prems have "expo_from n (e + 1) a < (e + 1) + int n" by simp
    from Suc.IH [OF this] False show ?thesis by simp
  qed
qed

lemma expo_from_lower: "e < expo_from n e a \<Longrightarrow> 2 powi (expo_from n e a) \<le> a"
proof (induction n arbitrary: e)
  case 0
  then show ?case by simp
next
  case (Suc n)
  show ?case
  proof (cases "a < 2 powi (e + 1)")
    case True
    with Suc.prems show ?thesis by simp
  next
    case False
    show ?thesis
    proof (cases "e + 1 < expo_from n (e + 1) a")
      case True
      from Suc.IH [OF this] False show ?thesis by simp
    next
      case False
      with expo_from_range [of "e + 1" n a] have "expo_from n (e + 1) a = e + 1" by simp
      with \<open>\<not> a < 2 powi (e + 1)\<close> show ?thesis by simp
    qed
  qed
qed

lemma expo_range: "- 1022 \<le> expo x" "expo x \<le> 1023"
  using expo_from_range [of "- 1022" 2045 "\<bar>x\<bar>"] by (simp_all add: expo_def)

lemma expo_upper: "expo x < 1023 \<Longrightarrow> \<bar>x\<bar> < 2 powi (expo x + 1)"
  using expo_from_upper [of 2045 "- 1022" "\<bar>x\<bar>"] by (simp add: expo_def)

lemma expo_lower: "- 1022 < expo x \<Longrightarrow> 2 powi (expo x) \<le> \<bar>x\<bar>"
  using expo_from_lower [of "- 1022" 2045 "\<bar>x\<bar>"] by (simp add: expo_def)

lemma powi2_mono: "m \<le> n \<Longrightarrow> (2::real) powi m \<le> 2 powi n"
  by (rule power_int_increasing) simp_all

lemma powi2_pos [simp]: "0 < (2::real) powi m"
  by (simp add: zero_less_power_int)

lemma expo_mono: "\<bar>x\<bar> \<le> \<bar>y\<bar> \<Longrightarrow> expo x \<le> expo y"
proof (rule ccontr)
  assume le: "\<bar>x\<bar> \<le> \<bar>y\<bar>" and "\<not> expo x \<le> expo y"
  then have lt: "expo y < expo x" by simp
  with expo_range(2) [of x] have "expo y < 1023" by simp
  then have "\<bar>y\<bar> < 2 powi (expo y + 1)" by (rule expo_upper)
  also from lt have "(2::real) powi (expo y + 1) \<le> 2 powi (expo x)"
    by (intro powi2_mono) simp
  also from lt expo_range(1) [of y] have "2 powi (expo x) \<le> \<bar>x\<bar>"
    by (intro expo_lower) simp
  finally show False using le by simp
qed

lemma expo_eqI:
  assumes "- 1022 \<le> k" "k \<le> 1023"
    and lo: "- 1022 < k \<Longrightarrow> 2 powi k \<le> \<bar>x\<bar>"
    and hi: "k < 1023 \<Longrightarrow> \<bar>x\<bar> < 2 powi (k + 1)"
  shows "expo x = k"
proof (rule antisym)
  show "expo x \<le> k"
  proof (rule ccontr)
    assume "\<not> expo x \<le> k"
    then have lt: "k < expo x" by simp
    with expo_range(2) [of x] have "k < 1023" by simp
    from hi [OF this] have "\<bar>x\<bar> < 2 powi (k + 1)" .
    also from lt have "(2::real) powi (k + 1) \<le> 2 powi (expo x)"
      by (intro powi2_mono) simp
    also from lt assms(1) have "2 powi (expo x) \<le> \<bar>x\<bar>"
      by (intro expo_lower) simp
    finally show False by simp
  qed
  show "k \<le> expo x"
  proof (rule ccontr)
    assume "\<not> k \<le> expo x"
    then have lt: "expo x < k" by simp
    with assms(2) have "expo x < 1023" by simp
    then have "\<bar>x\<bar> < 2 powi (expo x + 1)" by (rule expo_upper)
    also from lt have "(2::real) powi (expo x + 1) \<le> 2 powi k"
      by (intro powi2_mono) simp
    also from lt expo_range(1) [of x] have "2 powi k \<le> \<bar>x\<bar>"
      by (intro lo) simp
    finally show False by simp
  qed
qed


lemma quantum_times: "(2::real) powi (e - 52) * 2 ^ 52 = 2 powi e"
proof -
  have "(2::real) powi (e - 52) * 2 powi 52 = 2 powi (e - 52 + 52)"
    by (subst power_int_add) simp_all
  then show ?thesis by simp
qed

lemma quantum_times': "(2::real) powi (e - 52) * 2 ^ 53 = 2 powi (e + 1)"
proof -
  have "(2::real) powi (e - 52) * 2 powi 53 = 2 powi (e - 52 + 53)"
    by (subst power_int_add) simp_all
  moreover have "e - 52 + 53 = e + 1" by simp
  ultimately show ?thesis by simp
qed

lemma round64_0 [simp]: "round64 0 = 0"
  by (simp add: round64_def)

lemma round64_eq: "round64 x = 2 powi (expo x - 52) * of_int (rne (x / 2 powi (expo x - 52)))"
  by (simp add: round64_def Let_def)

lemma round64_nonneg: "0 \<le> x \<Longrightarrow> 0 \<le> round64 x"
proof -
  assume x: "0 \<le> x"
  let ?q = "(2::real) powi (expo x - 52)"
  from x have "0 \<le> x / ?q" by simp
  from rne_mono [OF this] have "0 \<le> rne (x / ?q)" by simp
  then show ?thesis by (simp add: round64_eq)
qed

lemma round64_lower:
  assumes "0 \<le> x" and "- 1022 < expo x"
  shows "2 powi (expo x) \<le> round64 x"
proof -
  let ?q = "(2::real) powi (expo x - 52)"
  from expo_lower [OF assms(2)] assms(1) have "2 powi (expo x) \<le> x" by simp
  then have "?q * 2 ^ 52 \<le> x" by (simp only: quantum_times)
  then have "of_int (2 ^ 52) \<le> x / ?q" by (simp add: pos_le_divide_eq mult.commute)
  from rne_mono [OF this] have "(2::int) ^ 52 \<le> rne (x / ?q)" by simp
  then have "(2::real) ^ 52 \<le> of_int (rne (x / ?q))"
    by (metis of_int_le_iff of_int_numeral of_int_power)
  then have "?q * 2 ^ 52 \<le> ?q * of_int (rne (x / ?q))" by simp
  then show ?thesis by (simp only: quantum_times round64_eq)
qed

lemma round64_upper:
  assumes "0 \<le> x" and "expo x < 1023"
  shows "round64 x \<le> 2 powi (expo x + 1)"
proof -
  let ?q = "(2::real) powi (expo x - 52)"
  from expo_upper [OF assms(2)] assms(1) have "x \<le> 2 powi (expo x + 1)" by simp
  then have "x \<le> ?q * 2 ^ 53" by (simp only: quantum_times')
  then have "x / ?q \<le> of_int (2 ^ 53)" by (simp add: pos_divide_le_eq mult.commute)
  from rne_mono [OF this] have "rne (x / ?q) \<le> (2::int) ^ 53" by simp
  then have "of_int (rne (x / ?q)) \<le> (2::real) ^ 53"
    by (metis of_int_le_iff of_int_numeral of_int_power)
  then have "?q * of_int (rne (x / ?q)) \<le> ?q * 2 ^ 53" by simp
  then show ?thesis by (simp only: quantum_times' round64_eq)
qed

lemma round64_mono:
  assumes "0 \<le> x" and "x \<le> y"
  shows "round64 x \<le> round64 y"
proof -
  from assms have y: "0 \<le> y" by simp
  from assms have "expo x \<le> expo y" by (intro expo_mono) simp
  then consider "expo x = expo y" | "expo x < expo y" by linarith
  then show ?thesis
  proof cases
    case 1
    let ?q = "(2::real) powi (expo y - 52)"
    from assms(2) have "x / ?q \<le> y / ?q" by (simp add: divide_right_mono)
    from rne_mono [OF this] have "?q * of_int (rne (x / ?q)) \<le> ?q * of_int (rne (y / ?q))"
      by simp
    with 1 show ?thesis by (simp add: round64_eq)
  next
    case 2
    with expo_range(2) [of y] have "expo x < 1023" by simp
    from round64_upper [OF assms(1) this] have "round64 x \<le> 2 powi (expo x + 1)" .
    also from 2 have "(2::real) powi (expo x + 1) \<le> 2 powi (expo y)"
      by (intro powi2_mono) simp
    also from 2 expo_range(1) [of x] have "2 powi (expo y) \<le> round64 y"
      by (intro round64_lower y) simp
    finally show ?thesis .
  qed
qed

lemma round64_multiple:
  assumes e: "expo x = e" and x: "x = 2 powi (e - 52) * of_int k"
  shows "round64 x = x"
proof -
  let ?q = "(2::real) powi (e - 52)"
  have "x / ?q = of_int k" by (subst x) simp
  then have "rne (x / ?q) = k" by simp
  then have "?q * of_int (rne (x / ?q)) = ?q * of_int k" by simp
  with e x show ?thesis by (simp add: round64_eq)
qed

lemma expo_powi: "- 1022 \<le> k \<Longrightarrow> k \<le> 1023 \<Longrightarrow> expo (2 powi k) = k"
  by (rule expo_eqI) (simp_all add: power_int_strict_increasing)

lemma round64_idem:
  assumes "0 \<le> x"
  shows "round64 (round64 x) = round64 x"
proof -
  let ?e = "expo x" and ?r = "round64 x"
  let ?m = "rne (x / 2 powi (?e - 52))"
  have r: "?r = 2 powi (?e - 52) * of_int ?m" by (rule round64_eq)
  have ge: "?e \<le> expo ?r"
  proof (cases "- 1022 < ?e")
    case True
    from round64_lower [OF assms True] have "\<bar>(2::real) powi ?e\<bar> \<le> \<bar>?r\<bar>" by simp
    from expo_mono [OF this] expo_range [of x] show ?thesis by (simp add: expo_powi)
  next
    case False
    with expo_range(1) [of x] expo_range(1) [of ?r] show ?thesis by simp
  qed
  then consider "expo ?r = ?e" | "?e < expo ?r" by linarith
  then show ?thesis
  proof cases
    case 1
    from 1 r show ?thesis by (rule round64_multiple)
  next
    case 2
    with expo_range(2) [of ?r] have e: "?e < 1023" by simp
    from round64_upper [OF assms e] have up: "?r \<le> 2 powi (?e + 1)" .
    from 2 expo_range(1) [of x] have "- 1022 < expo ?r" by simp
    from expo_lower [OF this] round64_nonneg [OF assms] have lo: "2 powi (expo ?r) \<le> ?r"
      by simp
    from 2 have "(2::real) powi (?e + 1) \<le> 2 powi (expo ?r)"
      by (intro powi2_mono) simp
    with up lo have eq: "?r = 2 powi (?e + 1)" by simp
    with e expo_range(1) [of x] have er: "expo ?r = ?e + 1" by (simp add: expo_powi)
    have "2 powi (?e + 1 - 52) * of_int (2 ^ 52) = (2::real) powi (?e + 1)"
      using quantum_times [of "?e + 1"] by simp
    with eq have "?r = 2 powi (?e + 1 - 52) * of_int (2 ^ 52)" by simp
    with er show ?thesis by (rule round64_multiple)
  qed
qed

text \<open>The integers below \<open>2 ^ 53\<close> are binary64 numbers.\<close>

lemma round64_of_int:
  assumes "\<bar>k\<bar> < 2 ^ 53"
  shows "round64 (of_int k) = of_int k"
proof -
  let ?x = "of_int k :: real" and ?e = "expo (of_int k)"
  have le: "?e \<le> 52"
  proof (rule ccontr)
    assume "\<not> ?e \<le> 52"
    then have e: "53 \<le> ?e" by simp
    then have "- 1022 < ?e" by simp
    from expo_lower [OF this] have "2 powi ?e \<le> \<bar>?x\<bar>" .
    moreover from e have "(2::real) powi 53 \<le> 2 powi ?e" by (rule powi2_mono)
    ultimately have "(2::real) ^ 53 \<le> \<bar>?x\<bar>" by simp
    then have "(2::int) ^ 53 \<le> \<bar>k\<bar>"
      by (metis of_int_abs of_int_le_iff of_int_numeral of_int_power)
    with assms show False by simp
  qed
  define n where "n = nat (52 - ?e)"
  from le have n: "int n = 52 - ?e" by (simp add: n_def)
  have "(2::real) powi (?e - 52) * 2 ^ n = 2 powi (?e - 52) * 2 powi (int n)"
    by simp
  also have "\<dots> = 2 powi (?e - 52 + int n)"
    by (subst power_int_add) simp_all
  also have "?e - 52 + int n = 0" by (simp only: n)
  finally have one: "(2::real) powi (?e - 52) * 2 ^ n = 1" by simp
  have "2 powi (?e - 52) * of_int (k * 2 ^ n) = (2 powi (?e - 52) * 2 ^ n) * ?x"
    by simp
  with one have "?x = 2 powi (?e - 52) * of_int (k * 2 ^ n)" by simp
  with refl show ?thesis by (rule round64_multiple)
qed

lemma round64_numeral: "(numeral w :: int) < 2 ^ 53 \<Longrightarrow> round64 (numeral w) = numeral w"
  using round64_of_int [of "numeral w"] by simp

lemma round64_1 [simp]: "round64 1 = 1"
  using round64_of_int [of 1] by simp

text \<open>Two roundings at \<open>10 ^ 16\<close>, where the binary64 numbers are the even integers.\<close>

lemma round64_1e16: "round64 (10 ^ 16) = 10 ^ 16"
proof -
  have "expo (10 ^ 16) = 53" by (rule expo_eqI) simp_all
  then show ?thesis by (simp add: round64_eq rne_def)
qed

lemma round64_1e16_minus_1: "round64 (10 ^ 16 - 1) = 10 ^ 16"
proof -
  have "expo (10 ^ 16 - 1) = 53" by (rule expo_eqI) simp_all
  then show ?thesis by (simp add: round64_eq rne_def)
qed

section \<open>What the loop computes in binary64\<close>

lemma body64_fields:
  "payments (body64 mr i s) = payments s"
  "debt (body64 mr i s) = endDebt (mkrow64 mr i (debt s) (payments s ! i))"
  "schedule (body64 mr i s) = schedule s @ [mkrow64 mr i (debt s) (payments s ! i)]"
  by (simp_all add: body64_def mkrow64_def Let_def)

lemma loop64_stop:
  "\<not> (i < length (payments s) \<and> \<not> debt s \<le> 0) \<Longrightarrow> loop64 mr i s = s"
  by (subst loop64.simps) auto

lemma loop64_step:
  "i < length (payments s) \<Longrightarrow> \<not> debt s \<le> 0 \<Longrightarrow>
   loop64 mr i s = loop64 mr (i + 1) (body64 mr i s)"
  by (subst loop64.simps) simp

lemma rows_from64_stop:
  "\<not> (i < length ps \<and> \<not> d \<le> 0) \<Longrightarrow> rows_from64 mr i d (drop i ps) = []"
  by (cases "drop i ps") auto

lemma rows_from64_step:
  "i < length ps \<Longrightarrow> \<not> d \<le> 0 \<Longrightarrow>
   rows_from64 mr i d (drop i ps) =
     mkrow64 mr i d (ps ! i) #
     rows_from64 mr (i + 1) (endDebt (mkrow64 mr i d (ps ! i))) (drop (i + 1) ps)"
  by (simp flip: Cons_nth_drop_Suc)

lemma loop64_schedule:
  "schedule (loop64 mr i s) = schedule s @ rows_from64 mr i (debt s) (drop i (payments s))"
proof (induction mr i s rule: loop64.induct)
  case (1 mr i s)
  show ?case
  proof (cases "i < length (payments s) \<and> \<not> debt s \<le> 0")
    case True
    with "1.IH" show ?thesis
      by (simp add: loop64_step rows_from64_step body64_fields)
  next
    case False
    then show ?thesis
      by (simp add: loop64_stop rows_from64_stop)
  qed
qed

lemma computeSchedule64_schedule:
  "schedule (computeSchedule64 total' annualRate ps) =
     rows_from64 (round64 (annualRate / 12)) 0 total' ps"
  by (simp add: computeSchedule64_def result_def init_def loop64_schedule Let_def)

lemma mkrow64_fields [simp]:
  "month (mkrow64 mr i d p) = i + 1"
  "startDebt (mkrow64 mr i d p) = d"
  "interest (mkrow64 mr i d p) = round64 (d * mr)"
  "paymentPlanned (mkrow64 mr i d p) = (if p > 0 then p else 0)"
  "paymentApplied (mkrow64 mr i d p) = min (if p > 0 then p else 0) d"
  "endDebt (mkrow64 mr i d p) = max (round64 (d - min (if p > 0 then p else 0) d)) 0"
  by (simp_all add: mkrow64_def)

text \<open>The debt after a row is again a binary64 number, not negative and not above the debt before it.\<close>

lemma endDebt64:
  assumes "0 < d" and "round64 d = d"
  shows "endDebt (mkrow64 mr i d p) = round64 (d - min (if p > 0 then p else 0) d)"
    and "0 \<le> endDebt (mkrow64 mr i d p)"
    and "endDebt (mkrow64 mr i d p) \<le> d"
    and "round64 (endDebt (mkrow64 mr i d p)) = endDebt (mkrow64 mr i d p)"
proof -
  let ?a = "min (if p > 0 then p else 0) d"
  from assms(1) have a: "0 \<le> d - ?a" "d - ?a \<le> d" by (simp_all add: min_def)
  from round64_nonneg [OF a(1)] have nn: "0 \<le> round64 (d - ?a)" .
  then show e: "endDebt (mkrow64 mr i d p) = round64 (d - ?a)" by simp
  from nn show "0 \<le> endDebt (mkrow64 mr i d p)" by simp
  from round64_mono [OF a] assms(2) show "endDebt (mkrow64 mr i d p) \<le> d"
    by (simp only: e)
  from round64_idem [OF a(1)] show "round64 (endDebt (mkrow64 mr i d p)) = endDebt (mkrow64 mr i d p)"
    by (simp only: e)
qed

lemma length_rows_from64: "length (rows_from64 mr i d ps) \<le> length ps"
  by (induction ps arbitrary: i d) auto

lemma rows_from64_nth:
  "round64 d = d \<Longrightarrow> k < length (rows_from64 mr i d ps) \<Longrightarrow>
   rows_from64 mr i d ps ! k = mkrow64 mr (i + k) (startDebt (rows_from64 mr i d ps ! k)) (ps ! k)
   \<and> 0 < startDebt (rows_from64 mr i d ps ! k)
   \<and> round64 (startDebt (rows_from64 mr i d ps ! k)) = startDebt (rows_from64 mr i d ps ! k)"
proof (induction ps arbitrary: i d k)
  case Nil
  then show ?case by simp
next
  case (Cons p ps)
  from Cons.prems have pos: "0 < d" by (auto split: if_splits)
  show ?case
  proof (cases k)
    case 0
    with Cons.prems pos show ?thesis by simp
  next
    case (Suc j)
    with Cons.prems pos
    have j: "j < length (rows_from64 mr (i + 1) (endDebt (mkrow64 mr i d p)) ps)"
      by simp
    from Cons.IH [OF endDebt64(4) [OF pos Cons.prems(1)] j] pos Suc show ?thesis by simp
  qed
qed

lemma rows_from64_hd:
  "rows_from64 mr i d ps \<noteq> [] \<Longrightarrow> startDebt (rows_from64 mr i d ps ! 0) = d"
  by (cases ps) (auto split: if_splits)

lemma rows_from64_chain:
  "Suc k < length (rows_from64 mr i d ps) \<Longrightarrow>
   startDebt (rows_from64 mr i d ps ! Suc k) = endDebt (rows_from64 mr i d ps ! k)"
proof (induction ps arbitrary: i d k)
  case Nil
  then show ?case by simp
next
  case (Cons p ps)
  let ?d' = "endDebt (mkrow64 mr i d p)"
  from Cons.prems have pos: "\<not> d \<le> 0" and len: "k < length (rows_from64 mr (i + 1) ?d' ps)"
    by (auto split: if_splits)
  show ?case
  proof (cases k)
    case 0
    from len have "rows_from64 mr (i + 1) ?d' ps \<noteq> []" by auto
    from rows_from64_hd [OF this] pos 0 show ?thesis by simp
  next
    case (Suc j)
    with len have "Suc j < length (rows_from64 mr (i + 1) ?d' ps)" by simp
    from Cons.IH [OF this] pos Suc show ?thesis by simp
  qed
qed

lemma rows_from64_last:
  "k < length (rows_from64 mr i d ps) \<Longrightarrow> endDebt (rows_from64 mr i d ps ! k) \<le> 0 \<Longrightarrow>
   Suc k = length (rows_from64 mr i d ps)"
proof (induction ps arbitrary: i d k)
  case Nil
  then show ?case by simp
next
  case (Cons p ps)
  let ?d' = "endDebt (mkrow64 mr i d p)"
  from Cons.prems have pos: "\<not> d \<le> 0" by (auto split: if_splits)
  show ?case
  proof (cases k)
    case 0
    with Cons.prems pos have "?d' \<le> 0" by simp
    then have "rows_from64 mr (i + 1) ?d' ps = []" by (cases ps) auto
    with pos 0 show ?thesis by simp
  next
    case (Suc j)
    with Cons.prems pos have "j < length (rows_from64 mr (i + 1) ?d' ps)"
      and "endDebt (rows_from64 mr (i + 1) ?d' ps ! j) \<le> 0" by simp_all
    from Cons.IH [OF this] pos Suc show ?thesis by simp
  qed
qed

lemma rows_from64_row:
  assumes "round64 d = d" and "r \<in> set (rows_from64 mr i d ps)"
  shows "paymentApplied r = min (paymentPlanned r) (startDebt r)"
    and "endDebt r = max (round64 (startDebt r - paymentApplied r)) 0"
    and "endDebt r \<le> startDebt r"
    and "0 \<le> endDebt r"
proof -
  from assms(2) obtain k where k: "k < length (rows_from64 mr i d ps)"
    and r: "r = rows_from64 mr i d ps ! k"
    by (auto simp: in_set_conv_nth)
  from rows_from64_nth [OF assms(1) k] r
  have eq: "r = mkrow64 mr (i + k) (startDebt r) (ps ! k)" and pos: "0 < startDebt r"
    and rep: "round64 (startDebt r) = startDebt r"
    by simp_all
  show "paymentApplied r = min (paymentPlanned r) (startDebt r)"
    by (subst eq, subst (2) eq) simp
  show "endDebt r = max (round64 (startDebt r - paymentApplied r)) 0"
    by (subst eq, subst (2) eq) simp
  from endDebt64(3) [OF pos rep] show "endDebt r \<le> startDebt r"
    by (subst eq) simp
  from endDebt64(2) [OF pos rep] show "0 \<le> endDebt r"
    by (subst eq) simp
qed

subsection \<open>The call relation and the loop\<close>

lemma loop64_payments: "payments (loop64 mr i s) = payments s"
proof (induction mr i s rule: loop64.induct)
  case (1 mr i s)
  show ?case
    using "1.IH" by (subst loop64.simps) (simp add: body64_fields)
qed

lemma loop_exec_loop: "loop_exec mr i s (loop64 mr i s)"
proof (induction mr i s rule: loop64.induct)
  case (1 mr i s)
  show ?case
  proof (cases "i < length (payments s)")
    case False
    then show ?thesis by (simp add: loop64_stop loop_exec.exit)
  next
    case True
    show ?thesis
    proof (cases "debt s \<le> 0")
      case True
      with \<open>i < length (payments s)\<close> show ?thesis by (simp add: loop64_stop loop_exec.break)
    next
      case False
      with True "1.IH" show ?thesis by (simp add: loop64_step loop_exec.iterate)
    qed
  qed
qed

lemma loop_exec_unique: "loop_exec mr i s t \<Longrightarrow> loop_exec mr i s t' \<Longrightarrow> t = t'"
proof (induction arbitrary: t' rule: loop_exec.induct)
  case (exit i s)
  from exit.prems exit.hyps show ?case by (cases rule: loop_exec.cases) simp_all
next
  case (break i s)
  from break.prems break.hyps show ?case by (cases rule: loop_exec.cases) simp_all
next
  case (iterate i s t)
  from iterate.prems iterate.hyps(1,2) have "loop_exec mr (i + 1) (body64 mr i s) t'"
    by (cases rule: loop_exec.cases) simp_all
  then show ?case by (rule iterate.IH)
qed

lemma loop_exec_payments: "loop_exec mr i s t \<Longrightarrow> payments t = payments s"
  by (induction rule: loop_exec.induct) (simp_all add: body64_fields)

lemma computeSchedule_exec_call:
  "computeSchedule_exec total' annualRate ps (computeSchedule64 total' annualRate ps, ps)"
proof -
  let ?t = "loop64 (round64 (annualRate / 12)) 0 (init total' ps)"
  have "computeSchedule_exec total' annualRate ps (result ?t, payments ?t)"
    by (rule computeSchedule_exec.call) (rule loop_exec_loop)
  then show ?thesis
    by (simp add: computeSchedule64_def loop64_payments init_def)
qed

section \<open>The claims\<close>

text \<open>
  The definitions of the function itself, in the reals and in binary64, for running it on
  a given input: the counterexamples below are evaluated on these, not on \<open>rows_from\<close>.
\<close>

lemmas run_defs =
  computeSchedule_def computeSchedule_run_def result_def init_def loop.simps body_def Let_def

lemmas run64_defs =
  computeSchedule64_def result_def init_def loop64.simps body64_def Let_def

subsection \<open>C1: the invariants of the rows\<close>

text \<open>
  Claim C1, as amended. For a principal that is a binary64 number and not negative, every
  row of the returned schedule has \<open>endDebt = max (round64 (startDebt - paymentApplied)) 0\<close>,
  the difference rounded to binary64 as the subtraction of the source rounds it, and
  \<open>paymentApplied = min paymentPlanned startDebt\<close>; its \<open>endDebt\<close> is at most its
  \<open>startDebt\<close> and not negative; each row starts with the debt the row before it ended
  with, and the first row starts with the principal; there are at most as many rows as
  payments; and a row whose \<open>endDebt\<close> is zero is the last one.
\<close>

theorem computeSchedule64_row_invariants:
  assumes "0 \<le> total'" and "round64 total' = total'"
  shows "let rows = schedule (computeSchedule64 total' annualRate ps) in
    (\<forall>r \<in> set rows.
        endDebt r = max (round64 (startDebt r - paymentApplied r)) 0 \<and>
        paymentApplied r = min (paymentPlanned r) (startDebt r) \<and>
        endDebt r \<le> startDebt r \<and> 0 \<le> endDebt r) \<and>
    (\<forall>i. Suc i < length rows \<longrightarrow> startDebt (rows ! Suc i) = endDebt (rows ! i)) \<and>
    (rows \<noteq> [] \<longrightarrow> startDebt (rows ! 0) = total') \<and>
    length rows \<le> length ps \<and>
    (\<forall>i < length rows. endDebt (rows ! i) = 0 \<longrightarrow> Suc i = length rows)"
proof -
  let ?rows = "rows_from64 (round64 (annualRate / 12)) 0 total' ps"
  have rows: "\<forall>r \<in> set ?rows.
        endDebt r = max (round64 (startDebt r - paymentApplied r)) 0 \<and>
        paymentApplied r = min (paymentPlanned r) (startDebt r) \<and>
        endDebt r \<le> startDebt r \<and> 0 \<le> endDebt r"
    using rows_from64_row [OF assms(2)] by blast
  have chain: "\<forall>i. Suc i < length ?rows \<longrightarrow> startDebt (?rows ! Suc i) = endDebt (?rows ! i)"
    by (simp add: rows_from64_chain)
  have first: "?rows \<noteq> [] \<longrightarrow> startDebt (?rows ! 0) = total'"
    by (simp add: rows_from64_hd)
  have len: "length ?rows \<le> length ps"
    by (rule length_rows_from64)
  have stop: "\<forall>i < length ?rows. endDebt (?rows ! i) = 0 \<longrightarrow> Suc i = length ?rows"
    by (simp add: rows_from64_last)
  from rows chain first len stop show ?thesis
    unfolding computeSchedule64_schedule Let_def by blast
qed

theorem computeSchedule64_row_invariants_witness:
  "0 \<le> (10 ^ 16 :: real) \<and> round64 (10 ^ 16) = 10 ^ 16 \<and>
   schedule (computeSchedule64 (10 ^ 16) 0 [1, 1]) =
     [\<lparr>month = 1, startDebt = 10 ^ 16, interest = 0, paymentPlanned = 1, paymentApplied = 1,
        endDebt = 10 ^ 16\<rparr>,
      \<lparr>month = 2, startDebt = 10 ^ 16, interest = 0, paymentPlanned = 1, paymentApplied = 1,
        endDebt = 10 ^ 16\<rparr>] \<and>
   max (round64 (10 ^ 16 - 1)) 0 = 10 ^ 16"
  using computeSchedule64_row_invariants [of "10 ^ 16" 0 "[1, 1]"] round64_1e16 round64_1e16_minus_1
  by (simp add: run64_defs)

text \<open>
  The claim as it was stated has \<open>endDebt = max (startDebt - paymentApplied) 0\<close> with the
  exact difference. With principal \<open>10 ^ 16\<close>, annual rate 0 and two payments of 1 the
  first row has \<open>startDebt = 10 ^ 16\<close> and \<open>paymentApplied = 1\<close>, and the subtraction gives
  \<open>10 ^ 16\<close> again (\<open>10 ^ 16 - 1\<close> is odd and lies halfway between two binary64 numbers), so
  \<open>endDebt = startDebt\<close>.
\<close>

theorem computeSchedule64_row_invariants_counterexample:
  "0 \<le> (10 ^ 16 :: real) \<and>
   endDebt (schedule (computeSchedule64 (10 ^ 16) 0 [1, 1]) ! 0) \<noteq>
     max (startDebt (schedule (computeSchedule64 (10 ^ 16) 0 [1, 1]) ! 0) -
          paymentApplied (schedule (computeSchedule64 (10 ^ 16) 0 [1, 1]) ! 0)) 0"
  using round64_1e16_minus_1 by (simp add: run64_defs)

subsection \<open>C2: payments that are all zero\<close>

text \<open>
  Claim C2, as amended. For a principal that is not negative, any annual rate and a
  payments sequence of \<open>monthCount\<close> zeros, \<open>remainingDebt\<close> is the principal itself and
  \<open>payoffMonth\<close> is absent.
\<close>

theorem computeSchedule_zero_payments:
  assumes "0 \<le> total'"
  shows "remainingDebt (computeSchedule total' annualRate (replicate monthCount 0)) = total' \<and>
         payoffMonth (computeSchedule total' annualRate (replicate monthCount 0)) = None"
proof (cases "total' = 0 \<or> monthCount = 0")
  case True
  then have "rows_from (annualRate / 12) 0 total' (replicate monthCount 0) = []"
    by (cases monthCount) auto
  with True show ?thesis
    by (auto simp add: computeSchedule_remainingDebt computeSchedule_payoffMonth)
next
  case False
  with assms have pos: "0 < total'" "0 < monthCount" by simp_all
  from pos have ne: "rows_from (annualRate / 12) 0 total' (replicate monthCount 0) \<noteq> []"
    by (simp add: rows_from_zero)
  from pos ne show ?thesis
    by (simp add: computeSchedule_remainingDebt computeSchedule_payoffMonth
        rows_from_zero_last Let_def)
qed

theorem computeSchedule_zero_payments_witness:
  "0 \<le> (100::real) \<and>
   remainingDebt (computeSchedule 100 1.5 (replicate 2 0)) = 100 \<and>
   payoffMonth (computeSchedule 100 1.5 (replicate 2 0)) = None"
  using computeSchedule_zero_payments [of 100 "1.5" 2] by simp

text \<open>
  The claim as it was stated has \<open>remainingDebt = principal * (1 + annualRate / 12) ^ monthCount\<close>.
  With principal 100, annual rate 0.12 and two zero payments the function returns 100,
  the formula gives 102.01.
\<close>

theorem computeSchedule_zero_payments_counterexample:
  "0 \<le> (100::real) \<and>
   remainingDebt (computeSchedule 100 0.12 (replicate 2 0)) \<noteq> 100 * (1 + 0.12 / 12) ^ 2"
  by (simp add: run_defs numeral_2_eq_2 power2_eq_square)

subsection \<open>C3: the scenario with principal 1200\<close>

text \<open>
  Claim C3, as amended. For principal 1200, annual rate 0.12 and twelve payments of 112
  the first row has \<open>startDebt = 1200\<close>, \<open>interest = 12\<close>, \<open>paymentApplied = 112\<close> and
  \<open>endDebt = 1088\<close>: the payment is taken off the debt, the interest is not added to it.
\<close>

theorem computeSchedule_scenario:
  "schedule (computeSchedule 1200 0.12 (replicate 12 112)) ! 0 =
     \<lparr>month = 1, startDebt = 1200, interest = 12, paymentPlanned = 112, paymentApplied = 112,
      endDebt = 1088\<rparr>"
  by (simp add: run_defs eval_nat_numeral)

text \<open>The claim as it was stated has \<open>endDebt = 1100\<close> in that row.\<close>

theorem computeSchedule_scenario_counterexample:
  "endDebt (schedule (computeSchedule 1200 0.12 (replicate 12 112)) ! 0) \<noteq> 1100"
  by (simp add: run_defs eval_nat_numeral)

subsection \<open>C4: the signs of the fields\<close>

text \<open>
  Claim C4, as amended. For a principal that is not negative, any annual rate and any
  payments, every row has a month of at least 1 and \<open>startDebt\<close>, \<open>paymentPlanned\<close>,
  \<open>paymentApplied\<close> and \<open>endDebt\<close> that are not negative; its \<open>interest\<close> is not negative
  when the annual rate is not negative.
\<close>

theorem computeSchedule_nonneg:
  assumes "0 \<le> total'"
  shows "\<forall>r \<in> set (schedule (computeSchedule total' annualRate ps)).
           1 \<le> month r \<and> 0 \<le> startDebt r \<and> 0 \<le> paymentPlanned r \<and>
           0 \<le> paymentApplied r \<and> 0 \<le> endDebt r \<and>
           (0 \<le> annualRate \<longrightarrow> 0 \<le> interest r)"
proof
  fix r assume "r \<in> set (schedule (computeSchedule total' annualRate ps))"
  then have r: "r \<in> set (rows_from (annualRate / 12) 0 total' ps)"
    by (simp add: computeSchedule_schedule)
  note f = rows_from_row [OF r]
  from f(1,3,4) have app: "0 \<le> paymentApplied r" by simp
  from f(5) have e: "0 \<le> endDebt r" by simp
  have "0 \<le> annualRate \<longrightarrow> 0 \<le> startDebt r * (annualRate / 12)"
    using f(1) by simp
  then have i: "0 \<le> annualRate \<longrightarrow> 0 \<le> interest r"
    by (simp only: f(2))
  from f(1,3,6) app e i
  show "1 \<le> month r \<and> 0 \<le> startDebt r \<and> 0 \<le> paymentPlanned r \<and>
           0 \<le> paymentApplied r \<and> 0 \<le> endDebt r \<and>
           (0 \<le> annualRate \<longrightarrow> 0 \<le> interest r)"
    by simp
qed

theorem computeSchedule_nonneg_witness:
  "0 \<le> (100::real) \<and> (0::real) \<le> 1.5 \<and>
   schedule (computeSchedule 100 1.5 [30, -5]) =
     [\<lparr>month = 1, startDebt = 100, interest = 12.5, paymentPlanned = 30, paymentApplied = 30,
        endDebt = 70\<rparr>,
      \<lparr>month = 2, startDebt = 70, interest = 8.75, paymentPlanned = 0, paymentApplied = 0,
        endDebt = 70\<rparr>] \<and>
   0 \<le> interest (schedule (computeSchedule 100 1.5 [30, -5]) ! 1)"
  using computeSchedule_nonneg [of 100 "1.5" "[30, -5]"]
  by (simp add: computeSchedule_schedule mkrow_def)

text \<open>
  The claim as it was stated has every field non-negative for every annual rate. With
  principal 100, annual rate -0.12 and one payment of zero the row has interest -1.
\<close>

theorem computeSchedule_nonneg_counterexample:
  "0 \<le> (100::real) \<and> interest (schedule (computeSchedule 100 (- 0.12) [0]) ! 0) < 0"
  by (simp add: run_defs)

subsection \<open>C5: the month in which the debt is paid off\<close>

text \<open>
  Claim C5. If the loop reaches index \<open>i\<close> (the schedule has a row for it) and the
  clamped payment \<open>max (payments[i]) 0\<close> is at least the \<open>startDebt\<close> of that row, then
  that \<open>startDebt\<close> is positive, the row is the one of month \<open>i + 1\<close>, its
  \<open>paymentPlanned\<close> is the clamped payment, its \<open>paymentApplied\<close> equals its \<open>startDebt\<close>,
  and the returned \<open>payoffMonth\<close> is that month.
\<close>

theorem computeSchedule_pays_off:
  assumes "i < length (schedule (computeSchedule total' annualRate ps))"
    and "startDebt (schedule (computeSchedule total' annualRate ps) ! i) \<le> max (ps ! i) 0"
  shows "0 < startDebt (schedule (computeSchedule total' annualRate ps) ! i) \<and>
         month (schedule (computeSchedule total' annualRate ps) ! i) = i + 1 \<and>
         paymentPlanned (schedule (computeSchedule total' annualRate ps) ! i) = max (ps ! i) 0 \<and>
         paymentApplied (schedule (computeSchedule total' annualRate ps) ! i) =
           startDebt (schedule (computeSchedule total' annualRate ps) ! i) \<and>
         payoffMonth (computeSchedule total' annualRate ps) = Some (i + 1)"
proof -
  let ?rows = "rows_from (annualRate / 12) 0 total' ps"
  let ?r = "?rows ! i"
  from assms have i: "i < length ?rows" and le: "startDebt ?r \<le> max (ps ! i) 0"
    by (simp_all add: computeSchedule_schedule)
  from rows_from_nth [OF i]
  have eq: "?r = mkrow (annualRate / 12) i (startDebt ?r) (ps ! i)" and pos: "0 < startDebt ?r"
    by simp_all
  have m: "month ?r = i + 1" by (subst eq) simp
  have pl: "paymentPlanned ?r = max (ps ! i) 0" by (subst eq) (simp add: max_def)
  have ap: "paymentApplied ?r = startDebt ?r"
    using le pos by (subst eq) (auto simp: max_def min_def split: if_splits)
  from i have "?r \<in> set ?rows" by simp
  from rows_from_row(5) [OF this] ap have "endDebt ?r = 0" by simp
  with i have e: "endDebt ?r = 0" and l: "Suc i = length ?rows"
    by (simp_all add: rows_from_last)
  from l have ne: "?rows \<noteq> []" by auto
  from l ne have "last ?rows = ?r"
    by (metis diff_Suc_1 last_conv_nth)
  with e ne m have "payoffMonth (computeSchedule total' annualRate ps) = Some (i + 1)"
    by (simp add: computeSchedule_payoffMonth)
  with pos m pl ap show ?thesis
    by (simp add: computeSchedule_schedule)
qed

theorem computeSchedule_pays_off_witness:
  "(2::nat) < length (schedule (computeSchedule 100 0.12 [30, -5, 200, 7])) \<and>
   startDebt (schedule (computeSchedule 100 0.12 [30, -5, 200, 7]) ! 2) \<le> max ([30, -5, 200, 7] ! 2) 0 \<and>
   startDebt (schedule (computeSchedule 100 0.12 [30, -5, 200, 7]) ! 2) = 70 \<and>
   paymentApplied (schedule (computeSchedule 100 0.12 [30, -5, 200, 7]) ! 2) = 70 \<and>
   payoffMonth (computeSchedule 100 0.12 [30, -5, 200, 7]) = Some 3"
  using computeSchedule_pays_off [of 2 100 "0.12" "[30, -5, 200, 7]"]
  by (simp add: computeSchedule_schedule)

subsection \<open>C6: negative payments\<close>

text \<open>
  Claim C6. If \<^verbatim>\<open>payments[i]\<close> is negative, the row of index \<open>i\<close>, when the schedule has
  one, is the row of month \<open>i + 1\<close> and has \<open>paymentPlanned = 0\<close> and
  \<open>paymentApplied = 0\<close>, so its \<open>endDebt\<close> is its \<open>startDebt\<close>. In every row the applied
  payment is between zero and the \<open>startDebt\<close> and the \<open>endDebt\<close> is between zero and the
  \<open>startDebt\<close>: no payment raises the debt, takes it below zero or applies more than is
  owed.
\<close>

theorem computeSchedule_negative_payment:
  "(\<forall>i < length (schedule (computeSchedule total' annualRate ps)). ps ! i < 0 \<longrightarrow>
      month (schedule (computeSchedule total' annualRate ps) ! i) = i + 1 \<and>
      paymentPlanned (schedule (computeSchedule total' annualRate ps) ! i) = 0 \<and>
      paymentApplied (schedule (computeSchedule total' annualRate ps) ! i) = 0 \<and>
      endDebt (schedule (computeSchedule total' annualRate ps) ! i) =
        startDebt (schedule (computeSchedule total' annualRate ps) ! i)) \<and>
   (\<forall>r \<in> set (schedule (computeSchedule total' annualRate ps)).
      0 \<le> paymentApplied r \<and> paymentApplied r \<le> startDebt r \<and>
      0 \<le> endDebt r \<and> endDebt r \<le> startDebt r)"
proof (intro conjI allI impI ballI)
  let ?rows = "rows_from (annualRate / 12) 0 total' ps"
  fix i assume "i < length (schedule (computeSchedule total' annualRate ps))" and neg: "ps ! i < 0"
  then have i: "i < length ?rows" by (simp add: computeSchedule_schedule)
  let ?r = "?rows ! i"
  from rows_from_nth [OF i]
  have eq: "?r = mkrow (annualRate / 12) i (startDebt ?r) (ps ! i)" and pos: "0 < startDebt ?r"
    by simp_all
  show "month (schedule (computeSchedule total' annualRate ps) ! i) = i + 1"
    unfolding computeSchedule_schedule by (subst eq) simp
  show "paymentPlanned (schedule (computeSchedule total' annualRate ps) ! i) = 0"
    unfolding computeSchedule_schedule using neg by (subst eq) simp
  show "paymentApplied (schedule (computeSchedule total' annualRate ps) ! i) = 0"
    unfolding computeSchedule_schedule using neg pos by (subst eq) simp
  show "endDebt (schedule (computeSchedule total' annualRate ps) ! i) =
        startDebt (schedule (computeSchedule total' annualRate ps) ! i)"
    unfolding computeSchedule_schedule using neg pos by (subst eq) simp
next
  fix r assume "r \<in> set (schedule (computeSchedule total' annualRate ps))"
  then have r: "r \<in> set (rows_from (annualRate / 12) 0 total' ps)"
    by (simp add: computeSchedule_schedule)
  note f = rows_from_row [OF r]
  from f(1,3,4) show "0 \<le> paymentApplied r" by simp
  from f(4) show "paymentApplied r \<le> startDebt r" by simp
  from f(5) show "0 \<le> endDebt r" by simp
  from f(1,3,4) have "0 \<le> paymentApplied r" by simp
  with f(1,5) show "endDebt r \<le> startDebt r" by simp
qed

theorem computeSchedule_negative_payment_witness:
  "(1::nat) < length (schedule (computeSchedule 100 0.12 [30, -5, 200, 7])) \<and>
   [30, -5, 200, 7] ! 1 < (0::real) \<and>
   schedule (computeSchedule 100 0.12 [30, -5, 200, 7]) ! 1 =
      \<lparr>month = 2, startDebt = 70, interest = 0.7, paymentPlanned = 0, paymentApplied = 0,
        endDebt = 70\<rparr>"
  using computeSchedule_negative_payment [of 100 "0.12" "[30, -5, 200, 7]"]
  by (simp add: computeSchedule_schedule mkrow_def)

subsection \<open>C7: no payments\<close>

text \<open>
  Claim C7. For every principal and annual rate, an empty payments sequence gives an
  empty schedule, \<open>totalInterest = 0\<close>, no \<open>payoffMonth\<close> and \<open>remainingDebt\<close> equal to the
  principal.
\<close>

theorem computeSchedule_empty:
  "computeSchedule total' annualRate [] =
     \<lparr>schedule = [], totalInterest = 0, payoffMonth = None, remainingDebt = total'\<rparr>"
  by (simp add: computeSchedule_def computeSchedule_run_def init_def loop_stop result_def)

subsection \<open>C8: the function is pure\<close>

text \<open>
  Claim C8. A call has an outcome that leaves the array \<^verbatim>\<open>payments\<close> as it was; any two
  outcomes of calls with the same principal, annual rate and payments are equal, the
  returned object and the array alike; and every outcome leaves \<^verbatim>\<open>payments\<close> as it was.
  The outcomes are those of the relation \<open>computeSchedule_exec\<close>, which follows the loop
  rule by rule.
\<close>

theorem computeSchedule_pure:
  "(\<exists>res. computeSchedule_exec total' annualRate ps (res, ps)) \<and>
   (\<forall>out1 out2. computeSchedule_exec total' annualRate ps out1 \<longrightarrow>
      computeSchedule_exec total' annualRate ps out2 \<longrightarrow> out1 = out2) \<and>
   (\<forall>res ps'. computeSchedule_exec total' annualRate ps (res, ps') \<longrightarrow> ps' = ps)"
proof (intro conjI allI impI)
  from computeSchedule_exec_call
  show "\<exists>res. computeSchedule_exec total' annualRate ps (res, ps)" by blast
next
  fix out1 out2
  assume "computeSchedule_exec total' annualRate ps out1"
    and "computeSchedule_exec total' annualRate ps out2"
  then obtain t1 t2 where "loop_exec (round64 (annualRate / 12)) 0 (init total' ps) t1"
    and "out1 = (result t1, payments t1)"
    and "loop_exec (round64 (annualRate / 12)) 0 (init total' ps) t2"
    and "out2 = (result t2, payments t2)"
    by (auto elim!: computeSchedule_exec.cases)
  with loop_exec_unique show "out1 = out2" by blast
next
  fix res ps'
  assume "computeSchedule_exec total' annualRate ps (res, ps')"
  then obtain t where "loop_exec (round64 (annualRate / 12)) 0 (init total' ps) t"
    and "ps' = payments t"
    by (auto elim!: computeSchedule_exec.cases)
  with loop_exec_payments [of "round64 (annualRate / 12)" 0 "init total' ps" t] show "ps' = ps"
    by (simp add: init_def)
qed

theorem computeSchedule_pure_witness:
  "computeSchedule_exec 100 12 [30, -5, 200, 7]
     (\<lparr>schedule =
        [\<lparr>month = 1, startDebt = 100, interest = 100, paymentPlanned = 30,
           paymentApplied = 30, endDebt = 70\<rparr>,
         \<lparr>month = 2, startDebt = 70, interest = 70, paymentPlanned = 0,
           paymentApplied = 0, endDebt = 70\<rparr>,
         \<lparr>month = 3, startDebt = 70, interest = 70, paymentPlanned = 200,
           paymentApplied = 70, endDebt = 0\<rparr>],
       totalInterest = 240, payoffMonth = Some 3, remainingDebt = 0\<rparr>,
      [30, -5, 200, 7])"
proof -
  have v: "computeSchedule64 100 12 [30, -5, 200, 7] =
     \<lparr>schedule =
        [\<lparr>month = 1, startDebt = 100, interest = 100, paymentPlanned = 30,
           paymentApplied = 30, endDebt = 70\<rparr>,
         \<lparr>month = 2, startDebt = 70, interest = 70, paymentPlanned = 0,
           paymentApplied = 0, endDebt = 70\<rparr>,
         \<lparr>month = 3, startDebt = 70, interest = 70, paymentPlanned = 200,
           paymentApplied = 70, endDebt = 0\<rparr>],
       totalInterest = 240, payoffMonth = Some 3, remainingDebt = 0\<rparr>"
    by (simp add: run64_defs round64_numeral)
  from computeSchedule_pure [of 100 12 "[30, -5, 200, 7]"]
  obtain res where r: "computeSchedule_exec 100 12 [30, -5, 200, 7] (res, [30, -5, 200, 7])"
    and u: "\<And>out1 out2. computeSchedule_exec 100 12 [30, -5, 200, 7] out1 \<Longrightarrow>
      computeSchedule_exec 100 12 [30, -5, 200, 7] out2 \<Longrightarrow> out1 = out2"
    by blast
  from u [OF r computeSchedule_exec_call [of 100 12 "[30, -5, 200, 7]"]]
  have "res = computeSchedule64 100 12 [30, -5, 200, 7]" by simp
  with r show ?thesis by (simp only: v)
qed

subsection \<open>C9: the function is total\<close>

text \<open>
  Claim C9. For every principal, annual rate and payments sequence the loop ends and the
  function returns a result: \<open>computeSchedule_opt\<close>, whose loop is defined with no
  termination argument, is never \<open>None\<close>, and its value is the one of
  \<open>computeSchedule\<close>. The source has no \<^verbatim>\<open>throw\<close>, and it reads \<^verbatim>\<open>payments[i]\<close> only below
  \<^verbatim>\<open>payments.length\<close>, so the result type has no error.
\<close>

theorem computeSchedule_terminates:
  "computeSchedule_opt total' annualRate ps = Some (computeSchedule total' annualRate ps)"
  by (simp add: computeSchedule_opt_def computeSchedule_def computeSchedule_run_def
      loop_opt_loop)

subsection \<open>C10: the rate does not reach the debt\<close>

text \<open>
  Claim C10. For two annual rates and the same principal and payments, the two schedules
  are equal once the \<open>interest\<close> field of every row is erased; in particular they have
  the same \<open>startDebt\<close>, \<open>paymentApplied\<close> and \<open>endDebt\<close> row by row, and the two results
  have the same \<open>payoffMonth\<close> and \<open>remainingDebt\<close>.
\<close>

theorem computeSchedule_rate_independent:
  "map (\<lambda>r. r\<lparr>interest := 0\<rparr>) (schedule (computeSchedule total' r1 ps)) =
     map (\<lambda>r. r\<lparr>interest := 0\<rparr>) (schedule (computeSchedule total' r2 ps)) \<and>
   map startDebt (schedule (computeSchedule total' r1 ps)) =
     map startDebt (schedule (computeSchedule total' r2 ps)) \<and>
   map paymentApplied (schedule (computeSchedule total' r1 ps)) =
     map paymentApplied (schedule (computeSchedule total' r2 ps)) \<and>
   map endDebt (schedule (computeSchedule total' r1 ps)) =
     map endDebt (schedule (computeSchedule total' r2 ps)) \<and>
   payoffMonth (computeSchedule total' r1 ps) = payoffMonth (computeSchedule total' r2 ps) \<and>
   remainingDebt (computeSchedule total' r1 ps) = remainingDebt (computeSchedule total' r2 ps)"
proof -
  let ?f = "\<lambda>r::Row. r\<lparr>interest := 0\<rparr>"
  let ?a = "rows_from (r1 / 12) 0 total' ps" and ?b = "rows_from (r2 / 12) 0 total' ps"
  have eq: "map ?f ?a = map ?f ?b" by (rule rows_from_rate)
  have "map (startDebt \<circ> ?f) ?a = map (startDebt \<circ> ?f) ?b"
    using arg_cong [OF eq, of "map startDebt"] by simp
  then have sd: "map startDebt ?a = map startDebt ?b" by (simp add: comp_def)
  have "map (paymentApplied \<circ> ?f) ?a = map (paymentApplied \<circ> ?f) ?b"
    using arg_cong [OF eq, of "map paymentApplied"] by simp
  then have pa: "map paymentApplied ?a = map paymentApplied ?b" by (simp add: comp_def)
  have "map (endDebt \<circ> ?f) ?a = map (endDebt \<circ> ?f) ?b"
    using arg_cong [OF eq, of "map endDebt"] by simp
  then have ed: "map endDebt ?a = map endDebt ?b" by (simp add: comp_def)
  have nil: "?a = [] \<longleftrightarrow> ?b = []" by (rule rows_from_rate_Nil)
  have po: "payoffMonth (computeSchedule total' r1 ps) = payoffMonth (computeSchedule total' r2 ps)"
  proof (cases "?a = []")
    case True
    with nil show ?thesis by (simp add: computeSchedule_payoffMonth)
  next
    case False
    from rows_from_rate_last [OF False, of "r2 / 12"] False nil show ?thesis
      by (simp add: computeSchedule_payoffMonth Let_def)
  qed
  have rd: "remainingDebt (computeSchedule total' r1 ps) = remainingDebt (computeSchedule total' r2 ps)"
  proof (cases "?a = []")
    case True
    with nil show ?thesis by (simp add: computeSchedule_remainingDebt)
  next
    case False
    from rows_from_rate_last [OF False, of "r2 / 12"] False nil show ?thesis
      by (simp add: computeSchedule_remainingDebt Let_def)
  qed
  from eq sd pa ed po rd show ?thesis
    by (simp only: computeSchedule_schedule)
qed

end
